theory Spec2Isabelle
  imports Main "HOL-Library.Word" "HOL-Library.AList" "HOL-Library.Signed_Division"
begin

section \<open>godupes: a shallow embedding of main.go\<close>

text \<open>
  The program screens files by a digest of their first bytes, groups them by that
  digest, drops the groups with one member, hashes what is left in full and groups
  again. Go's \<^verbatim>\<open>int\<close> is taken to be 64 bits wide: the machine integers of the source
  are \<open>64 word\<close>, read with \<open>sint\<close> where the source's type is signed.
\<close>

type_synonym byte = "8 word"
type_synonym uint64 = "64 word"
type_synonym int64 = "64 word"

subsection \<open>What lies outside the repository\<close>

text \<open>
  \<^verbatim>\<open>metro.Hash64(buf, seed)\<close> comes from a package that is not part of the repository.
  Every function that hashes takes the hash as its first argument \<open>H\<close>; theorems hold
  for every \<open>H\<close>.
\<close>

type_synonym hashfn = "byte list \<Rightarrow> uint64 \<Rightarrow> uint64"

text \<open>
  A stand-in used only where a closed term has to be evaluated.
\<close>

definition sample_hash :: hashfn where
  "sample_hash bs seed = foldl (\<lambda>h b. h * 257 + ucast b + 1) seed bs"

text \<open>
  The file system as the program observes it during one run. \<open>fs p = None\<close>: \<^verbatim>\<open>os.Open\<close>
  fails on \<open>p\<close>. Otherwise the node tells whether \<^verbatim>\<open>Stat\<close> succeeds on the open file,
  whether reading it succeeds (reading a directory does not), and its bytes; the size
  \<^verbatim>\<open>Stat\<close> reports is the number of bytes.
\<close>

record fnode =
  contents :: "byte list"
  stat_ok :: bool
  read_ok :: bool

type_synonym filesystem = "string \<Rightarrow> fnode option"

text \<open>Go's error values, and the run-time panics the source can raise.\<close>

datatype error =
    EOF
  | PathError string string
  | ErrInvalid
  | PathAlreadyPresent

datatype panic =
    MakesliceLen
  | NilDereference
  | IndexOutOfRange
  | SendOnClosedChannel
  | WaitGroupMisuse

text \<open>\<^verbatim>\<open>os.Open\<close>: the open file (with its name) or \<^verbatim>\<open>nil\<close>, and the error.\<close>

type_synonym handle = "(string \<times> fnode) option"

definition os_Open :: "filesystem \<Rightarrow> string \<Rightarrow> handle \<times> error option" where
  "os_Open fs name =
     (case fs name of
        None \<Rightarrow> (None, Some (PathError ''open'' name))
      | Some n \<Rightarrow> (Some (name, n), None))"

text \<open>
  \<^verbatim>\<open>file.Stat()\<close> with its error dropped, as the caller drops it: the size, or \<open>None\<close> for
  the \<^verbatim>\<open>nil\<close> FileInfo that comes with an error (also on a \<^verbatim>\<open>nil\<close> file).
\<close>

definition File_Stat :: "handle \<Rightarrow> int option" where
  "File_Stat file =
     (case file of
        None \<Rightarrow> None
      | Some (name, n) \<Rightarrow> if stat_ok n then Some (int (length (contents n))) else None)"

text \<open>
  \<^verbatim>\<open>file.ReadAt(b, off)\<close>: the buffer after the call and the error. Nothing is read into
  an empty buffer and no error is reported then; a read that fails leaves the buffer
  as it was; a read that reaches the end of the file fills the front of the buffer and
  reports \<open>EOF\<close>.
\<close>

definition File_ReadAt :: "handle \<Rightarrow> byte list \<Rightarrow> nat \<Rightarrow> byte list \<times> error option" where
  "File_ReadAt file b off =
     (case file of
        None \<Rightarrow> (b, Some ErrInvalid)
      | Some (name, n) \<Rightarrow>
          if b = [] then (b, None)
          else if \<not> read_ok n then (b, Some (PathError ''read'' name))
          else
            let got = take (length b) (drop off (contents n))
            in (got @ drop (length got) b,
                if length got < length b then Some EOF else None))"

text \<open>\<^verbatim>\<open>ioutil.ReadFile\<close>: the whole file, or an error.\<close>

definition ReadFile :: "filesystem \<Rightarrow> string \<Rightarrow> byte list \<times> error option" where
  "ReadFile fs name =
     (case fs name of
        None \<Rightarrow> ([], Some (PathError ''open'' name))
      | Some n \<Rightarrow>
          if read_ok n then (contents n, None) else ([], Some (PathError ''read'' name)))"

text \<open>\<^verbatim>\<open>strconv.FormatInt(i, 10)\<close>.\<close>

definition digit :: "nat \<Rightarrow> char" where
  "digit d = ''0123456789'' ! d"

fun dec_nat :: "nat \<Rightarrow> string" where
  "dec_nat n = (if n < 10 then [digit n] else dec_nat (n div 10) @ [digit (n mod 10)])"

declare dec_nat.simps [simp del]

definition FormatInt :: "int \<Rightarrow> string" where
  "FormatInt i = (if i < 0 then CHR ''-'' # dec_nat (nat (- i)) else dec_nat (nat i))"

subsection \<open>File and FileFromPath (main.go, lines 19-43)\<close>

text \<open>The field \<^verbatim>\<open>size\<close> is \<open>size_f\<close> here.\<close>

record File =
  path :: string
  size_f :: uint64
  bytesHash :: uint64
  fullHash :: uint64

text \<open>The zero value \<^verbatim>\<open>File{}\<close>.\<close>

definition File_zero :: File where
  "File_zero = \<lparr>path = [], size_f = 0, bytesHash = 0, fullHash = 0\<rparr>"

text \<open>
  \<^verbatim>\<open>FileFromPath\<close>. \<open>Inl\<close> is a panic, \<open>Inr\<close> the pair the function returns.
  \<^verbatim>\<open>make([]byte, buffSize)\<close> panics on a negative length and gives \<open>buffSize\<close> zero
  bytes otherwise. The error of \<^verbatim>\<open>os.Open\<close> is tested after \<^verbatim>\<open>Stat\<close> was called; the hash is
  taken over the whole buffer \<^verbatim>\<open>firstBytes\<close>, the count returned by \<^verbatim>\<open>ReadAt\<close> is dropped;
  \<^verbatim>\<open>stats.Size()\<close> on a \<^verbatim>\<open>nil\<close> FileInfo is a nil dereference.
\<close>

definition FileFromPath :: "hashfn \<Rightarrow> filesystem \<Rightarrow> string \<Rightarrow> int \<Rightarrow> panic + (File \<times> error option)" where
  "FileFromPath H fs p buffSize =
     (if buffSize < 0 then Inl MakesliceLen
      else
        let firstBytes = replicate (nat buffSize) (0 :: byte);
            (file, err) = os_Open fs p;
            stats = File_Stat file
        in if err \<noteq> None then Inr (File_zero, err)
           else
             let (firstBytes', err') = File_ReadAt file firstBytes 0
             in if err' \<noteq> None \<and> err' \<noteq> Some EOF then Inr (File_zero, err')
                else
                  (case stats of
                     None \<Rightarrow> Inl NilDereference
                   | Some sz \<Rightarrow>
                       Inr (\<lparr>path = p, size_f = word_of_int sz,
                             bytesHash = H firstBytes' 0, fullHash = 0\<rparr>, None)))"

subsection \<open>PathStore (main.go, lines 45-158)\<close>

text \<open>
  A Go map is an association list in which no key occurs twice (\<open>store_ok\<close> below); the
  order of the list stands for the order in which \<^verbatim>\<open>range\<close> happens to visit the map.
  A \<^verbatim>\<open>nil\<close> map reads like an empty one, and the source never writes to one. The embedded
  mutex is left out: the model is sequential, and every method that locks unlocks
  before it returns.
\<close>

record PathStore =
  paths :: "(uint64 \<times> File list) list"
  bytesPerFile :: int
  pathsAdded :: "(uint64 \<times> bool) list"

definition store_ok :: "PathStore \<Rightarrow> bool" where
  "store_ok p = distinct (map fst (paths p))"

text \<open>\<^verbatim>\<open>m[k]\<close> on a map of slices: the \<^verbatim>\<open>nil\<close> slice for a key that is missing.\<close>

definition lookup :: "('k \<times> 'v list) list \<Rightarrow> 'k \<Rightarrow> 'v list" where
  "lookup m k = (case map_of m k of None \<Rightarrow> [] | Some v \<Rightarrow> v)"

definition empty_store :: "int \<Rightarrow> PathStore" where
  "empty_store n = \<lparr>paths = [], bytesPerFile = n, pathsAdded = []\<rparr>"

definition bytes_of :: "string \<Rightarrow> byte list" where
  "bytes_of s = map of_char s"

definition PathAdded :: "hashfn \<Rightarrow> PathStore \<Rightarrow> string \<Rightarrow> bool" where
  "PathAdded H p s =
     (case map_of (pathsAdded p) (H (bytes_of s) 0) of Some _ \<Rightarrow> True | None \<Rightarrow> False)"

text \<open>
  \<^verbatim>\<open>AddFile\<close>: the receiver after the call and the error returned. The only write is
  the one to \<^verbatim>\<open>p.paths\<close>.
\<close>

definition AddFile :: "hashfn \<Rightarrow> filesystem \<Rightarrow> string \<Rightarrow> PathStore \<Rightarrow> panic + (PathStore \<times> error option)" where
  "AddFile H fs s p =
     (if PathAdded H p s then Inr (p, Some PathAlreadyPresent)
      else
        (case FileFromPath H fs s (bytesPerFile p) of
           Inl pn \<Rightarrow> Inl pn
         | Inr (f, Some e) \<Rightarrow> Inr (p, Some e)
         | Inr (f, None) \<Rightarrow>
             Inr (p\<lparr>paths := AList.update (bytesHash f) (lookup (paths p) (bytesHash f) @ [f]) (paths p)\<rparr>,
                  None)))"

text \<open>The loop of \<^verbatim>\<open>NewPathStore\<close>: it stops at the first error and returns the store with it.\<close>

fun AddFiles :: "hashfn \<Rightarrow> filesystem \<Rightarrow> string list \<Rightarrow> PathStore \<Rightarrow> panic + (PathStore \<times> error option)" where
  "AddFiles H fs [] store = Inr (store, None)"
| "AddFiles H fs (p # ps) store =
     (case AddFile H fs p store of
        Inl pn \<Rightarrow> Inl pn
      | Inr (store', Some e) \<Rightarrow> Inr (store', Some e)
      | Inr (store', None) \<Rightarrow> AddFiles H fs ps store')"

definition NewPathStore :: "hashfn \<Rightarrow> filesystem \<Rightarrow> string list \<Rightarrow> int \<Rightarrow> panic + (PathStore \<times> error option)" where
  "NewPathStore H fs ps n = AddFiles H fs ps (empty_store n)"

definition AllPaths :: "PathStore \<Rightarrow> File list" where
  "AllPaths p = concat (map snd (paths p))"

definition EmptyFiles :: "PathStore \<Rightarrow> File list" where
  "EmptyFiles p = filter (\<lambda>f. size_f f = 0) (concat (map snd (paths p)))"

definition FileCount :: "PathStore \<Rightarrow> int64" where
  "FileCount p = foldl (\<lambda>count (k, v). count + of_nat (length v)) 0 (paths p)"

definition FileSetCount :: "PathStore \<Rightarrow> int64" where
  "FileSetCount p = of_nat (length (paths p))"

text \<open>
  \<^verbatim>\<open>Prune\<close>: the receiver after the call and the new store. The loop writes the groups
  with more than one member into the new store's map.
\<close>

fun Prune_loop :: "(uint64 \<times> File list) list \<Rightarrow> PathStore \<Rightarrow> PathStore" where
  "Prune_loop [] newStore = newStore"
| "Prune_loop ((k, v) # rest) newStore =
     Prune_loop rest
       (if length v > 1 then newStore\<lparr>paths := AList.update k v (paths newStore)\<rparr> else newStore)"

definition Prune :: "PathStore \<Rightarrow> PathStore \<times> PathStore" where
  "Prune p = (p, Prune_loop (paths p) (empty_store (bytesPerFile p)))"

text \<open>
  \<^verbatim>\<open>TotalSizeDups\<close>: \<^verbatim>\<open>v[0]\<close> panics on an empty group; the sum (\<^verbatim>\<open>total\<close>, here \<open>tot\<close>) is taken in \<^verbatim>\<open>int\<close>, where
  \<^verbatim>\<open>int(v[0].size)\<close> keeps the bits of the unsigned size.
\<close>

fun TotalSizeDups_loop :: "(uint64 \<times> File list) list \<Rightarrow> int64 \<Rightarrow> panic + int64" where
  "TotalSizeDups_loop [] tot = Inr tot"
| "TotalSizeDups_loop ((k, v) # rest) tot =
     (case v of
        [] \<Rightarrow> Inl IndexOutOfRange
      | f # _ \<Rightarrow> TotalSizeDups_loop rest (tot + (of_nat (length v) - 1) * size_f f))"

definition TotalSizeDups :: "PathStore \<Rightarrow> panic + int64" where
  "TotalSizeDups p = TotalSizeDups_loop (paths p) 0"

text \<open>\<^verbatim>\<open>Summarize\<close>: Go's \<^verbatim>\<open>/\<close> on \<^verbatim>\<open>int64\<close> truncates towards zero (\<open>sdiv\<close>).\<close>

definition Summarize :: "PathStore \<Rightarrow> panic + string" where
  "Summarize p =
     (let numFiles = FormatInt (sint (FileCount p));
          numSets = FormatInt (sint (FileSetCount p))
      in case TotalSizeDups p of
           Inl pn \<Rightarrow> Inl pn
         | Inr tot \<Rightarrow>
             let sizeMegabytes = FormatInt (sint tot sdiv (1024 * 1024))
             in Inr (numFiles @ '' files (in '' @ numSets @ '' sets), occupying ''
                     @ sizeMegabytes @ '' megabytes''))"

subsection \<open>Reading the paths (main.go, lines 160-193)\<close>

text \<open>
  A run ends early in two ways: \<^verbatim>\<open>errOut\<close> prints an error and exits with status 1, or a
  panic crashes the process.
\<close>

datatype abort = Fatal error | Crash panic

text \<open>
  \<^verbatim>\<open>fromSTDIn\<close>, on the lines the scanner yields. The store literal sets \<^verbatim>\<open>paths\<close> only:
  \<^verbatim>\<open>bytesPerFile\<close> is its zero value and \<^verbatim>\<open>pathsAdded\<close> is \<^verbatim>\<open>nil\<close>. The function returns the
  pruned store.
\<close>

fun fromSTDIn_loop :: "hashfn \<Rightarrow> filesystem \<Rightarrow> string list \<Rightarrow> PathStore \<Rightarrow> abort + PathStore" where
  "fromSTDIn_loop H fs [] themap = Inr themap"
| "fromSTDIn_loop H fs (l # ls) themap =
     (case AddFile H fs l themap of
        Inl pn \<Rightarrow> Inl (Crash pn)
      | Inr (themap', Some e) \<Rightarrow> Inl (Fatal e)
      | Inr (themap', None) \<Rightarrow> fromSTDIn_loop H fs ls themap')"

definition fromSTDIn :: "hashfn \<Rightarrow> filesystem \<Rightarrow> string list \<Rightarrow> abort + PathStore" where
  "fromSTDIn H fs inp =
     (case fromSTDIn_loop H fs inp (empty_store 0) of
        Inl a \<Rightarrow> Inl a
      | Inr themap \<Rightarrow> Inr (snd (Prune themap)))"

text \<open>
  \<^verbatim>\<open>filepath.Walk\<close> calls the function it is given once per entry of the tree, with the
  entry's path, its FileInfo and the error met on the way, and stops when a call
  returns an error. The entries of a tree are an input of the model.
\<close>

record FileInfo =
  IsDir :: bool
  ModeSymlink :: bool

type_synonym visit = "string \<times> FileInfo \<times> error option"

definition fileCheck :: "string list \<Rightarrow> string \<Rightarrow> FileInfo \<Rightarrow> error option \<Rightarrow> string list \<times> error option" where
  "fileCheck found p info err =
     (if err \<noteq> None \<or> IsDir info \<or> ModeSymlink info then (found, None)
      else (found @ [p], None))"

fun Walk :: "visit list \<Rightarrow> string list \<Rightarrow> string list \<times> error option" where
  "Walk [] found = (found, None)"
| "Walk ((p, info, err) # rest) found =
     (case fileCheck found p info err of
        (found', Some e) \<Rightarrow> (found', Some e)
      | (found', None) \<Rightarrow> Walk rest found')"

definition dirWalk :: "visit list \<Rightarrow> string list \<times> error option" where
  "dirWalk tree =
     (case Walk tree [] of
        (found, Some e) \<Rightarrow> (found, Some e)
      | (found, None) \<Rightarrow> (found, None))"

subsection \<open>The hashing stage and main (main.go, lines 195-281)\<close>

text \<open>
  The goroutine of lines 261-268 sends every record of every group of \<^verbatim>\<open>newStore\<close> to
  \<^verbatim>\<open>hashq\<close>, one after the other: \<open>hashq_feed\<close> is what it offers. \<open>hashWorker_step\<close> is the
  body of the worker's loop for one record: the record with its full hash set, which
  the worker sends to \<^verbatim>\<open>resultq\<close>, or the read error it hands to \<^verbatim>\<open>errOut\<close>.
\<close>

definition hashq_feed :: "PathStore \<Rightarrow> File list" where
  "hashq_feed newStore = concat (map snd (paths newStore))"

definition hashWorker_step :: "hashfn \<Rightarrow> filesystem \<Rightarrow> File \<Rightarrow> error + File" where
  "hashWorker_step H fs f =
     (case ReadFile fs (path f) of
        (d, Some e) \<Rightarrow> Inl e
      | (d, None) \<Rightarrow> Inr (f\<lparr>fullHash := H d 0\<rparr>))"

text \<open>
  For the records the workers have taken from \<^verbatim>\<open>hashq\<close>: the records they have to send to
  \<^verbatim>\<open>resultq\<close>, and the errors they have to hand to \<^verbatim>\<open>errOut\<close>.
\<close>

definition worker_sends :: "hashfn \<Rightarrow> filesystem \<Rightarrow> File list \<Rightarrow> File list" where
  "worker_sends H fs taken =
     concat (map (\<lambda>f. case hashWorker_step H fs f of Inl e \<Rightarrow> [] | Inr g \<Rightarrow> [g]) taken)"

definition worker_errors :: "hashfn \<Rightarrow> filesystem \<Rightarrow> File list \<Rightarrow> error list" where
  "worker_errors H fs taken =
     concat (map (\<lambda>f. case hashWorker_step H fs f of Inl e \<Rightarrow> [e] | Inr g \<Rightarrow> []) taken)"

text \<open>
  The goroutines run in an order that the program does not fix. A schedule says how one
  run resolves it:
  \<^item> \<open>sched_taken\<close>: how many of the records offered on \<^verbatim>\<open>hashq\<close> the workers take before
    the process ends (\<^verbatim>\<open>hashq\<close> has no buffer, so they are the first ones offered);
  \<^item> \<open>sched_arrivals\<close>: which of the records the workers have to send main receives
    before its loop over \<^verbatim>\<open>resultq\<close> ends or the process ends, by position, in the order
    of arrival;
  \<^item> \<open>sched_errors\<close>: which of the read errors get printed by \<^verbatim>\<open>errOut\<close> before the
    process ends, by position, in the order of printing, and \<open>sched_errors_before\<close>: how
    many of them are printed before main's last summary;
  \<^item> \<open>sched_end\<close>: how the process ends.

  The goroutine of lines 253-256 is started before any worker is registered with the
  wait group. When it runs \<^verbatim>\<open>wg.Wait()\<close> first, \<^verbatim>\<open>resultq\<close> is closed at once: main's loop
  ends with whatever it has received by then, and a worker that sends afterwards
  panics. When it waits for the workers, main receives every record before its loop
  ends. A worker whose read fails prints the error and exits with status 1, whatever
  the others are doing. So the process ends in one of these ways; the flag says whether
  main had got past its loop, to lines 278-281, by then:
\<close>

datatype ending =
    MainReturns
  | ErrOutExits bool
  | SendPanics bool
  | WaitPanics bool

record schedule =
  sched_taken :: nat
  sched_arrivals :: "nat list"
  sched_errors :: "nat list"
  sched_errors_before :: nat
  sched_end :: ending

text \<open>The elements of \<open>xs\<close> at the positions \<open>idxs\<close>, each position at most once.\<close>

definition pick :: "nat list \<Rightarrow> 'a list \<Rightarrow> 'a list" where
  "pick idxs xs = map (\<lambda>i. xs ! i) (filter (\<lambda>i. i < length xs) (remdups idxs))"

text \<open>The loop of lines 275-277, which files what it receives under its full hash.\<close>

fun collect :: "File list \<Rightarrow> PathStore \<Rightarrow> PathStore" where
  "collect [] hashed = hashed"
| "collect (f # resultq) hashed =
     collect resultq
       (hashed\<lparr>paths := AList.update (fullHash f) (lookup (paths hashed) (fullHash f) @ [f]) (paths hashed)\<rparr>)"

text \<open>The flags, and what the process prints and how it ends.\<close>

record flags =
  flag_stdin :: bool
  flag_path :: string
  flag_workers :: int
  flag_bytes :: int
  flag_summarize :: bool

datatype out = Line string | ErrLine error

datatype status = Exit nat | Crashed panic

definition errOut :: "out list \<Rightarrow> error \<Rightarrow> out list \<times> status" where
  "errOut printed e = (printed @ [ErrLine e], Exit 1)"

text \<open>Lines 227-241: what is printed, and the store \<^verbatim>\<open>bytesMatch\<close> or the early end.\<close>

definition main_input :: "hashfn \<Rightarrow> filesystem \<Rightarrow> string list \<Rightarrow> (string \<Rightarrow> visit list) \<Rightarrow> flags \<Rightarrow> out list \<times> (abort + PathStore)" where
  "main_input H fs inp walk fl =
     (if flag_stdin fl then ([Line ''getting paths from stdin''], fromSTDIn H fs inp)
      else
        (case dirWalk (walk (flag_path fl)) of
           (found, Some e) \<Rightarrow> ([], Inl (Fatal e))
         | (found, None) \<Rightarrow>
             (case NewPathStore H fs found (flag_bytes fl) of
                Inl pn \<Rightarrow> ([], Inl (Crash pn))
              | Inr (store, Some e) \<Rightarrow> ([], Inl (Fatal e))
              | Inr (store, None) \<Rightarrow> ([], Inr store))))"

text \<open>
  A run of main: what it prints, how it ends, the records the workers took from \<^verbatim>\<open>hashq\<close>
  and the records main received from \<^verbatim>\<open>resultq\<close>.
\<close>

record run =
  run_printed :: "out list"
  run_status :: status
  run_taken :: "File list"
  run_received :: "File list"

definition ended :: "out list \<times> status \<Rightarrow> run" where
  "ended r = \<lparr>run_printed = fst r, run_status = snd r, run_taken = [], run_received = []\<rparr>"

definition reaches_summary :: "ending \<Rightarrow> bool" where
  "reaches_summary e =
     (case e of MainReturns \<Rightarrow> True | ErrOutExits b \<Rightarrow> b | SendPanics b \<Rightarrow> b | WaitPanics b \<Rightarrow> b)"

definition status_of :: "ending \<Rightarrow> status" where
  "status_of e =
     (case e of
        MainReturns \<Rightarrow> Exit 0
      | ErrOutExits b \<Rightarrow> Exit 1
      | SendPanics b \<Rightarrow> Crashed SendOnClosedChannel
      | WaitPanics b \<Rightarrow> Crashed WaitGroupMisuse)"

text \<open>
  Lines 243-281. The two summaries and the line \<^verbatim>\<open>got the hashed map\<close> are printed before
  the feeder and the workers are started. With no worker (\<^verbatim>\<open>-workers\<close> below 1) nothing is
  taken from \<^verbatim>\<open>hashq\<close>, \<^verbatim>\<open>resultq\<close> is closed at once and main returns. The function is
  defined on every schedule; some cannot happen (an exit through \<^verbatim>\<open>errOut\<close> when no read
  has failed), and no statement below depends on telling them apart.
\<close>

definition main_pipeline :: "hashfn \<Rightarrow> filesystem \<Rightarrow> flags \<Rightarrow> schedule \<Rightarrow> out list \<Rightarrow> PathStore \<Rightarrow> run" where
  "main_pipeline H fs fl sched printed bytesMatch =
     (case Summarize bytesMatch of
        Inl pn \<Rightarrow> ended (printed, Crashed pn)
      | Inr s1 \<Rightarrow>
          let newStore = snd (Prune bytesMatch)
          in case Summarize newStore of
               Inl pn \<Rightarrow> ended (printed @ [Line s1], Crashed pn)
             | Inr s2 \<Rightarrow>
                 let printed2 = printed @ [Line s1, Line s2, Line ''got the hashed map''];
                     taken = (if flag_workers fl \<le> 0 then []
                              else take (sched_taken sched) (hashq_feed newStore));
                     received = pick (sched_arrivals sched) (worker_sends H fs taken);
                     errs = pick (sched_errors sched) (worker_errors H fs taken);
                     errs1 = take (sched_errors_before sched) errs;
                     errs2 = drop (sched_errors_before sched) errs;
                     ending = (if flag_workers fl \<le> 0 then MainReturns else sched_end sched);
                     hashed = collect received (empty_store 0);
                     hashedStore = snd (Prune hashed)
                 in if reaches_summary ending \<and> flag_summarize fl then
                      (case Summarize hashedStore of
                         Inl pn \<Rightarrow>
                           \<lparr>run_printed = printed2 @ map ErrLine errs1, run_status = Crashed pn,
                            run_taken = taken, run_received = received\<rparr>
                       | Inr s3 \<Rightarrow>
                           \<lparr>run_printed = printed2 @ map ErrLine errs1 @ [Line s3] @ map ErrLine errs2,
                            run_status = status_of ending,
                            run_taken = taken, run_received = received\<rparr>)
                    else
                      \<lparr>run_printed = printed2 @ map ErrLine errs, run_status = status_of ending,
                       run_taken = taken, run_received = received\<rparr>)"

definition main :: "hashfn \<Rightarrow> filesystem \<Rightarrow> string list \<Rightarrow> (string \<Rightarrow> visit list) \<Rightarrow> flags \<Rightarrow> schedule \<Rightarrow> run" where
  "main H fs inp walk fl sched =
     (if flag_stdin fl \<and> flag_path fl \<noteq> [] then
        ended ([Line ''Only one of -path or -stdin may be used''], Exit 1)
      else
        (case main_input H fs inp walk fl of
           (printed, Inl (Fatal e)) \<Rightarrow> ended (errOut printed e)
         | (printed, Inl (Crash pn)) \<Rightarrow> ended (printed, Crashed pn)
         | (printed, Inr bytesMatch) \<Rightarrow> main_pipeline H fs fl sched printed bytesMatch))"

subsection \<open>Quantities the statements below speak about\<close>

text \<open>
  What the specification calls the total of duplicated bytes: over the groups, one less
  than the length of the group times the size of its first record, as integers.
\<close>

definition TotalDuplicatedBytes_spec :: "PathStore \<Rightarrow> int" where
  "TotalDuplicatedBytes_spec p =
     (\<Sum>(k, v)\<leftarrow>paths p. (int (length v) - 1) * uint (size_f (hd v)))"

text \<open>The specification's pair of a file: its size and its first \<open>n\<close> bytes.\<close>

definition size_prefix_pair :: "filesystem \<Rightarrow> nat \<Rightarrow> string \<Rightarrow> nat \<times> byte list" where
  "size_prefix_pair fs n p =
     (case fs p of
        None \<Rightarrow> (0, [])
      | Some nd \<Rightarrow> (length (contents nd), take n (contents nd)))"

text \<open>The first \<open>n\<close> bytes of a file, filled up with zero bytes to the length \<open>n\<close>.\<close>

definition padded_prefix :: "filesystem \<Rightarrow> nat \<Rightarrow> string \<Rightarrow> byte list" where
  "padded_prefix fs n p =
     (case fs p of
        None \<Rightarrow> replicate n 0
      | Some nd \<Rightarrow> take n (contents nd) @ replicate (n - length (contents nd)) 0)"

text \<open>Every record of every group satisfies \<open>Q\<close>, given the group's key.\<close>

definition all_records :: "(uint64 \<Rightarrow> File \<Rightarrow> bool) \<Rightarrow> PathStore \<Rightarrow> bool" where
  "all_records Q p = list_all (\<lambda>(k, v). list_all (Q k) v) (paths p)"

text \<open>Every group of a store has a member.\<close>

definition groups_nonempty :: "PathStore \<Rightarrow> bool" where
  "groups_nonempty p = list_all (\<lambda>(k, v). v \<noteq> []) (paths p)"

text \<open>
  What holds of every store the program builds from paths: no key twice, no empty
  group, every record filed under its own prefix digest, no full hash set.
\<close>

definition store_inv :: "PathStore \<Rightarrow> bool" where
  "store_inv p \<longleftrightarrow> store_ok p \<and> groups_nonempty p
     \<and> all_records (\<lambda>k f. bytesHash f = k) p \<and> all_records (\<lambda>k f. fullHash f = 0) p"

text \<open>\<^verbatim>\<open>Stat\<close> succeeds on the file, if it opens at all.\<close>

definition size_known :: "filesystem \<Rightarrow> string \<Rightarrow> bool" where
  "size_known fs p = (case fs p of None \<Rightarrow> True | Some n \<Rightarrow> stat_ok n)"

text \<open>The record \<open>FileFromPath\<close> returns for a file it accepts, with a buffer of \<open>n\<close> bytes.\<close>

definition record_of :: "hashfn \<Rightarrow> filesystem \<Rightarrow> nat \<Rightarrow> string \<Rightarrow> File" where
  "record_of H fs n q =
     (case fs q of
        None \<Rightarrow> File_zero
      | Some nd \<Rightarrow>
          \<lparr>path = q, size_f = of_nat (length (contents nd)),
           bytesHash = H (padded_prefix fs n q) 0, fullHash = 0\<rparr>)"

subsection \<open>Inputs for evaluation\<close>

definition regular :: "byte list \<Rightarrow> fnode" where
  "regular bs = \<lparr>contents = bs, stat_ok = True, read_ok = True\<rparr>"

definition ex_fs :: filesystem where
  "ex_fs = map_of
     [(''ab'', regular [97, 98]),
      (''abc'', regular [97, 98, 99]),
      (''xy'', regular [120, 121]),
      (''one'', regular [1]),
      (''dir'', \<lparr>contents = [], stat_ok = True, read_ok = False\<rparr>)]"

definition ex_tree :: "string \<Rightarrow> visit list" where
  "ex_tree start =
     [(start, \<lparr>IsDir = True, ModeSymlink = False\<rparr>, None),
      (''ab'', \<lparr>IsDir = False, ModeSymlink = False\<rparr>, None),
      (''abc'', \<lparr>IsDir = False, ModeSymlink = False\<rparr>, None),
      (''lnk'', \<lparr>IsDir = False, ModeSymlink = True\<rparr>, None),
      (''xy'', \<lparr>IsDir = False, ModeSymlink = False\<rparr>, None)]"

definition ex_flags :: flags where
  "ex_flags = \<lparr>flag_stdin = False, flag_path = ''.'', flag_workers = 2, flag_bytes = 2,
               flag_summarize = True\<rparr>"

text \<open>
  The schedule in which the goroutine of lines 253-256 waits for the workers: they take
  both records offered, main receives the second result first, and main returns.
\<close>

definition ex_sched :: schedule where
  "ex_sched = \<lparr>sched_taken = 2, sched_arrivals = [1, 0], sched_errors = [],
               sched_errors_before = 0, sched_end = MainReturns\<rparr>"

text \<open>
  A schedule in which the same goroutine closes \<^verbatim>\<open>resultq\<close> at once: a worker takes the
  first record, main receives nothing, and the worker panics when it sends.
\<close>

definition ex_sched_closed :: schedule where
  "ex_sched_closed = \<lparr>sched_taken = 1, sched_arrivals = [], sched_errors = [],
                      sched_errors_before = 0, sched_end = SendPanics False\<rparr>"

definition ex_file :: "string \<Rightarrow> nat \<Rightarrow> uint64 \<Rightarrow> File" where
  "ex_file p n h = \<lparr>path = p, size_f = of_nat n, bytesHash = h, fullHash = 0\<rparr>"

definition ex_store :: PathStore where
  "ex_store =
     \<lparr>paths = [(5, [ex_file ''u'' 7 5]),
               (6, [ex_file ''v'' 3000000 6, ex_file ''w'' 3000000 6, ex_file ''x'' 3000000 6])],
      bytesPerFile = 2, pathsAdded = []\<rparr>"

definition ex_store_rev :: PathStore where
  "ex_store_rev = ex_store\<lparr>paths := rev (paths ex_store)\<rparr>"

definition ex_small :: PathStore where
  "ex_small =
     \<lparr>paths = [(9, [ex_file ''s'' 500000 9, ex_file ''t'' 500000 9, ex_file ''r'' 500000 9])],
      bytesPerFile = 2, pathsAdded = []\<rparr>"

definition ex_prefix_store :: PathStore where
  "ex_prefix_store =
     \<lparr>paths = [(25285, [ex_file ''ab'' 2 25285, ex_file ''abc'' 3 25285]),
               (31219, [ex_file ''xy'' 2 31219])],
      bytesPerFile = 2, pathsAdded = []\<rparr>"

definition ex_pruned_store :: PathStore where
  "ex_pruned_store =
     \<lparr>paths = [(25285, [ex_file ''ab'' 2 25285, ex_file ''abc'' 3 25285])],
      bytesPerFile = 2, pathsAdded = []\<rparr>"

section \<open>Properties\<close>

subsection \<open>Prune\<close>

lemma update_fresh: "k \<notin> fst ` set al \<Longrightarrow> AList.update k v al = al @ [(k, v)]"
  by (induction al) auto

lemma Prune_loop_fields:
  "bytesPerFile (Prune_loop xs new) = bytesPerFile new \<and> pathsAdded (Prune_loop xs new) = pathsAdded new"
  by (induction xs new rule: Prune_loop.induct) auto

lemma Prune_loop_paths:
  "distinct (map fst xs) \<Longrightarrow> fst ` set xs \<inter> fst ` set (paths new) = {} \<Longrightarrow>
   paths (Prune_loop xs new) = paths new @ filter (\<lambda>(k, v). 1 < length v) xs"
proof (induction xs new rule: Prune_loop.induct)
  case (1 new)
  then show ?case by simp
next
  case (2 k v rest new)
  show ?case
  proof (cases "1 < length v")
    case True
    have fresh: "k \<notin> fst ` set (paths new)" using 2(3) by auto
    let ?n = "new\<lparr>paths := AList.update k v (paths new)\<rparr>"
    have p: "paths ?n = paths new @ [(k, v)]" using fresh by (simp add: update_fresh)
    have d: "distinct (map fst rest)" using 2(2) by simp
    have i: "fst ` set rest \<inter> fst ` set (paths ?n) = {}"
      using 2(2) 2(3) by (auto simp: p)
    from 2(1)[OF d] i True show ?thesis by (simp add: p)
  next
    case False
    have d: "distinct (map fst rest)" using 2(2) by simp
    have i: "fst ` set rest \<inter> fst ` set (paths new) = {}" using 2(3) by auto
    from 2(1)[OF d] i False show ?thesis by simp
  qed
qed

lemma Prune_paths:
  "store_ok p \<Longrightarrow> paths (snd (Prune p)) = filter (\<lambda>(k, v). 1 < length v) (paths p)"
  by (simp add: Prune_def store_ok_def Prune_loop_paths empty_store_def)

lemma Prune_fields:
  "bytesPerFile (snd (Prune p)) = bytesPerFile p \<and> pathsAdded (snd (Prune p)) = []"
  by (simp add: Prune_def Prune_loop_fields empty_store_def)

lemma Prune_store_ok: "store_ok p \<Longrightarrow> store_ok (snd (Prune p))"
  by (simp add: Prune_paths store_ok_def distinct_map_filter)

text \<open>
  C9. On a store whose map has no key twice, \<open>Prune\<close> leaves the receiver as it was and
  returns a new store whose groups are exactly the groups of the receiver with at least
  two members; the new store has the receiver's \<open>bytesPerFile\<close>. The result is determined
  by the receiver's map: two stores holding the same groups, in whatever order the map
  is visited, are pruned to stores holding the same groups.
\<close>

theorem Prune_keeps_groups_of_two:
  assumes "store_ok p"
  shows "fst (Prune p) = p
    \<and> set (paths (snd (Prune p))) = {(k, v). (k, v) \<in> set (paths p) \<and> 2 \<le> length v}
    \<and> store_ok (snd (Prune p))
    \<and> bytesPerFile (snd (Prune p)) = bytesPerFile p
    \<and> (\<forall>q. store_ok q \<and> set (paths q) = set (paths p) \<and> bytesPerFile q = bytesPerFile p \<longrightarrow>
          set (paths (snd (Prune q))) = set (paths (snd (Prune p)))
          \<and> bytesPerFile (snd (Prune q)) = bytesPerFile (snd (Prune p))
          \<and> pathsAdded (snd (Prune q)) = pathsAdded (snd (Prune p)))"
proof -
  have a: "fst (Prune p) = p" by (simp add: Prune_def)
  have b: "set (paths (snd (Prune q))) = {(k, v). (k, v) \<in> set (paths q) \<and> 2 \<le> length v}"
    if "store_ok q" for q
    using that by (auto simp: Prune_paths)
  have c: "store_ok (snd (Prune p))" using assms by (rule Prune_store_ok)
  show ?thesis using a b[OF assms] b c by (simp add: Prune_fields)
qed

theorem Prune_keeps_groups_of_two_witness:
  "store_ok ex_store \<and> fst (Prune ex_store) = ex_store
   \<and> paths (snd (Prune ex_store)) =
       [(6, [ex_file ''v'' 3000000 6, ex_file ''w'' 3000000 6, ex_file ''x'' 3000000 6])]
   \<and> set (paths (snd (Prune ex_store_rev))) = set (paths (snd (Prune ex_store)))"
proof -
  have ok: "store_ok ex_store" by (simp add: store_ok_def ex_store_def)
  have okr: "store_ok ex_store_rev" by (simp add: store_ok_def ex_store_def ex_store_rev_def)
  have same: "set (paths ex_store_rev) = set (paths ex_store)"
    by (simp add: ex_store_rev_def)
  have bpf: "bytesPerFile ex_store_rev = bytesPerFile ex_store"
    by (simp add: ex_store_rev_def)
  note t = Prune_keeps_groups_of_two [OF ok]
  from t have r: "fst (Prune ex_store) = ex_store" by simp
  from t okr same bpf
  have d: "set (paths (snd (Prune ex_store_rev))) = set (paths (snd (Prune ex_store)))"
    by blast
  have e: "paths (snd (Prune ex_store)) =
       [(6, [ex_file ''v'' 3000000 6, ex_file ''w'' 3000000 6, ex_file ''x'' 3000000 6])]"
    by (simp add: Prune_def ex_store_def empty_store_def)
  show ?thesis using ok r d e by simp
qed

subsection \<open>TotalSizeDups and Summarize\<close>

lemma TotalSizeDups_loop_sum:
  "list_all (\<lambda>(k, v). v \<noteq> []) xs \<Longrightarrow>
   TotalSizeDups_loop xs tot =
     Inr (tot + word_of_int (\<Sum>(k, v)\<leftarrow>xs. (int (length v) - 1) * uint (size_f (hd v))))"
proof (induction xs arbitrary: tot)
  case Nil
  then show ?case by simp
next
  case (Cons a xs)
  obtain k v where a: "a = (k, v)" by (cases a)
  with Cons.prems obtain f fs where v: "v = f # fs" by (cases v) auto
  have rest: "list_all (\<lambda>(k, v). v \<noteq> []) xs" using Cons.prems by simp
  show ?case
    by (simp add: a v Cons.IH[OF rest] algebra_simps)
qed

lemma TotalSizeDups_loop_empty_group:
  "\<not> list_all (\<lambda>(k, v). v \<noteq> []) xs \<Longrightarrow> TotalSizeDups_loop xs tot = Inl IndexOutOfRange"
proof (induction xs arbitrary: tot)
  case Nil
  then show ?case by simp
next
  case (Cons a xs)
  obtain k v where a: "a = (k, v)" by (cases a)
  show ?case
  proof (cases "v = []")
    case True
    with a show ?thesis by simp
  next
    case False
    then obtain f rest where v: "v = f # rest" by (cases v) auto
    with a Cons.prems have "\<not> list_all (\<lambda>(k, v). v \<noteq> []) xs" by simp
    from Cons.IH[OF this] a v show ?thesis by simp
  qed
qed

text \<open>On a store with an empty group the index \<^verbatim>\<open>v[0]\<close> is out of range.\<close>

lemma TotalSizeDups_empty_group_panics:
  "\<not> groups_nonempty p \<Longrightarrow> TotalSizeDups p = Inl IndexOutOfRange"
  by (simp add: TotalSizeDups_def groups_nonempty_def TotalSizeDups_loop_empty_group)

lemma spec_sum_nonneg:
  "list_all (\<lambda>(k, v). v \<noteq> []) xs \<Longrightarrow>
   0 \<le> (\<Sum>(k, v)\<leftarrow>xs. (int (length v) - 1) * uint (size_f (hd v)))"
  by (induction xs) (auto simp: case_prod_beta)

lemma sint_fits: "0 \<le> x \<Longrightarrow> x < 2 ^ 63 \<Longrightarrow> sint (word_of_int x :: 64 word) = x"
  by (simp add: sint_sbintrunc' signed_take_bit_int_eq_self)

text \<open>
  C7. On a store in which every group has a member, \<open>TotalSizeDups\<close> returns the sum over
  the groups of (length of the group - 1) times the size of the group's first record,
  computed in 64-bit arithmetic: the result is that sum as a 64-bit word, and it is the
  sum itself whenever the sum is below \<open>2 ^ 63\<close>.
\<close>

theorem TotalSizeDups_is_spec_sum:
  assumes "groups_nonempty p"
  shows "\<exists>t. TotalSizeDups p = Inr t \<and> t = word_of_int (TotalDuplicatedBytes_spec p)
          \<and> (TotalDuplicatedBytes_spec p < 2 ^ 63 \<longrightarrow> sint t = TotalDuplicatedBytes_spec p)"
proof -
  have ne: "list_all (\<lambda>(k, v). v \<noteq> []) (paths p)"
    using assms by (simp add: groups_nonempty_def)
  have r: "TotalSizeDups p = Inr (word_of_int (TotalDuplicatedBytes_spec p))"
    by (simp add: TotalSizeDups_def TotalDuplicatedBytes_spec_def TotalSizeDups_loop_sum[OF ne])
  have nn: "0 \<le> TotalDuplicatedBytes_spec p"
    unfolding TotalDuplicatedBytes_spec_def by (rule spec_sum_nonneg[OF ne])
  show ?thesis using r nn by (simp add: sint_fits)
qed

theorem TotalSizeDups_is_spec_sum_witness:
  "groups_nonempty ex_store \<and> TotalDuplicatedBytes_spec ex_store = 6000000
   \<and> TotalSizeDups ex_store = Inr 6000000
   \<and> (case TotalSizeDups ex_store of Inr t \<Rightarrow> sint t | Inl _ \<Rightarrow> - 1) = 6000000"
proof -
  have ne: "groups_nonempty ex_store"
    by (simp add: groups_nonempty_def ex_store_def)
  have s: "TotalDuplicatedBytes_spec ex_store = 6000000"
    by (simp add: TotalDuplicatedBytes_spec_def ex_store_def ex_file_def)
  from TotalSizeDups_is_spec_sum [OF ne] s
  have "TotalSizeDups ex_store = Inr 6000000 \<and> sint (6000000 :: int64) = 6000000"
    by auto
  then show ?thesis using ne s by simp
qed

lemma dec_nat_0: "dec_nat 0 = ''0''"
  by (simp add: dec_nat.simps digit_def)

text \<open>
  C10. The megabytes field of the summary is the total of \<open>TotalSizeDups\<close> divided by
  1048576 with the quotient truncated towards zero, so a total of less than one
  mebibyte is reported as 0.
\<close>

theorem Summarize_megabytes_truncate:
  assumes "TotalSizeDups p = Inr t"
  shows "Summarize p =
           Inr (FormatInt (sint (FileCount p)) @ '' files (in ''
                @ FormatInt (sint (FileSetCount p)) @ '' sets), occupying ''
                @ FormatInt (sint t sdiv 1048576) @ '' megabytes'')
    \<and> sint t sdiv 1048576 = sgn (sint t) * (\<bar>sint t\<bar> div 1048576)
    \<and> (\<bar>sint t\<bar> < 1048576 \<longrightarrow> FormatInt (sint t sdiv 1048576) = ''0'')"
proof -
  have a: "Summarize p =
           Inr (FormatInt (sint (FileCount p)) @ '' files (in ''
                @ FormatInt (sint (FileSetCount p)) @ '' sets), occupying ''
                @ FormatInt (sint t sdiv 1048576) @ '' megabytes'')"
    using assms by (simp add: Summarize_def)
  have b: "sint t sdiv 1048576 = sgn (sint t) * (\<bar>sint t\<bar> div 1048576)"
    by (simp add: signed_divide_int_def)
  have c: "FormatInt (sint t sdiv 1048576) = ''0''" if "\<bar>sint t\<bar> < 1048576"
    using that by (simp add: b FormatInt_def dec_nat_0)
  show ?thesis using a b c by blast
qed

theorem Summarize_megabytes_truncate_witness:
  "TotalSizeDups ex_store = Inr 6000000
   \<and> Summarize ex_store = Inr ''4 files (in 2 sets), occupying 5 megabytes''
   \<and> TotalSizeDups ex_small = Inr 1000000
   \<and> Summarize ex_small = Inr ''3 files (in 1 sets), occupying 0 megabytes''"
proof -
  have t1: "TotalSizeDups ex_store = Inr 6000000"
    by (simp add: TotalSizeDups_def ex_store_def ex_file_def)
  have t2: "TotalSizeDups ex_small = Inr 1000000"
    by (simp add: TotalSizeDups_def ex_small_def ex_file_def)
  have f1: "FileCount ex_store = 4" "FileSetCount ex_store = 2"
    by (simp_all add: FileCount_def FileSetCount_def ex_store_def)
  have f2: "FileCount ex_small = 3" "FileSetCount ex_small = 1"
    by (simp_all add: FileCount_def FileSetCount_def ex_small_def)
  have d: "dec_nat 4 = ''4''" "dec_nat 2 = ''2''" "dec_nat 5 = ''5''" "dec_nat 3 = ''3''"
    "dec_nat (Suc 0) = ''1''" "dec_nat 0 = ''0''"
    by (simp_all add: dec_nat.simps digit_def)
  have s1: "Summarize ex_store = Inr ''4 files (in 2 sets), occupying 5 megabytes''"
    using Summarize_megabytes_truncate [OF t1]
    by (simp add: f1 FormatInt_def d signed_divide_int_def)
  have s2: "Summarize ex_small = Inr ''3 files (in 1 sets), occupying 0 megabytes''"
    using Summarize_megabytes_truncate [OF t2]
    by (simp add: f2 FormatInt_def d)
  show ?thesis using t1 t2 s1 s2 by simp
qed

subsection \<open>FileFromPath\<close>

lemma FileFromPath_cases:
  "FileFromPath H fs p N =
     (if N < 0 then Inl MakesliceLen
      else case fs p of
        None \<Rightarrow> Inr (File_zero, Some (PathError ''open'' p))
      | Some n \<Rightarrow>
          if N \<noteq> 0 \<and> \<not> read_ok n then Inr (File_zero, Some (PathError ''read'' p))
          else if \<not> stat_ok n then Inl NilDereference
          else Inr (\<lparr>path = p, size_f = of_nat (length (contents n)),
                     bytesHash = H (padded_prefix fs (nat N) p) 0, fullHash = 0\<rparr>, None))"
  by (auto simp: FileFromPath_def os_Open_def File_Stat_def File_ReadAt_def padded_prefix_def
        Let_def min_def split: option.splits)

lemma FileFromPath_ok:
  "FileFromPath H fs q N = Inr (f, None) \<Longrightarrow> f = record_of H fs (nat N) q \<and> fs q \<noteq> None"
  by (auto simp: FileFromPath_cases record_of_def split: if_splits option.splits)

lemma record_of_fields:
  "fs q \<noteq> None \<Longrightarrow> path (record_of H fs n q) = q
     \<and> bytesHash (record_of H fs n q) = H (padded_prefix fs n q) 0
     \<and> fullHash (record_of H fs n q) = 0"
  by (auto simp: record_of_def)

text \<open>
  C4, as amended. For a file that opens, whose size is known and that can be read, and
  that is shorter than the buffer, \<open>FileFromPath\<close> returns no error and takes the prefix
  digest over the whole buffer: the bytes of the file followed by zero bytes up to the
  buffer's length.
\<close>

theorem FileFromPath_short_file_padded:
  assumes "fs p = Some n" and "stat_ok n" and "read_ok n" and "length (contents n) < nat N"
  shows "FileFromPath H fs p N =
           Inr (\<lparr>path = p, size_f = of_nat (length (contents n)),
                 bytesHash = H (contents n @ replicate (nat N - length (contents n)) 0) 0,
                 fullHash = 0\<rparr>, None)"
  using assms by (simp add: FileFromPath_cases padded_prefix_def)

theorem FileFromPath_short_file_padded_witness:
  "FileFromPath sample_hash ex_fs ''one'' 4 =
     Inr (\<lparr>path = ''one'', size_f = 1, bytesHash = sample_hash [1, 0, 0, 0] 0, fullHash = 0\<rparr>, None)"
proof -
  have a: "ex_fs ''one'' = Some (regular [1])" by (simp add: ex_fs_def)
  have b: "stat_ok (regular [1])" "read_ok (regular [1])" by (simp_all add: regular_def)
  have c: "length (contents (regular [1])) < nat 4" by (simp add: regular_def)
  have r: "replicate 3 (0::byte) = [0, 0, 0]" by (simp add: numeral_3_eq_3)
  show ?thesis
    using FileFromPath_short_file_padded [where fs = ex_fs and p = "''one''" and N = 4 and H = sample_hash, OF a b c]
    by (simp add: regular_def r)
qed

text \<open>
  C4 as stated fails: the file \<open>one\<close> holds the single byte 1; with a buffer of 4 bytes
  its prefix digest is the hash of the four bytes 1, 0, 0, 0 and not the hash of the one
  byte that exists.
\<close>

theorem FileFromPath_short_file_counterexample:
  "FileFromPath sample_hash ex_fs ''one'' 4 = Inr (ex_file ''one'' 1 34015493, None)
   \<and> map_option contents (ex_fs ''one'') = Some [1]
   \<and> sample_hash [1] 0 = 2
   \<and> sample_hash [1, 0, 0, 0] 0 = 34015493"
  by (simp add: FileFromPath_cases ex_fs_def regular_def padded_prefix_def ex_file_def
        sample_hash_def numeral_3_eq_3)

text \<open>
  C6, as amended. For a buffer length that is not negative and a file whose size is
  known if it opens, \<open>FileFromPath\<close> returns an error exactly when the file does not
  open, or the buffer is not empty and reading fails for a reason other than the end of
  the file. A file that opens and can be read is accepted, however short it is.
\<close>

theorem FileFromPath_error_iff:
  assumes "0 \<le> N" and "size_known fs p"
  shows "((\<exists>f e. FileFromPath H fs p N = Inr (f, Some e)) \<longleftrightarrow>
            (fs p = None \<or> (\<exists>n. fs p = Some n \<and> \<not> read_ok n \<and> N \<noteq> 0)))
     \<and> (\<forall>n. fs p = Some n \<and> read_ok n \<longrightarrow>
            FileFromPath H fs p N =
              Inr (\<lparr>path = p, size_f = of_nat (length (contents n)),
                    bytesHash = H (padded_prefix fs (nat N) p) 0, fullHash = 0\<rparr>, None))"
  using assms by (auto simp: FileFromPath_cases size_known_def split: option.splits)

theorem FileFromPath_error_iff_witness:
  "size_known ex_fs ''dir'' \<and> size_known ex_fs ''one'' \<and> size_known ex_fs ''gone''
   \<and> (\<exists>f e. FileFromPath sample_hash ex_fs ''dir'' 4 = Inr (f, Some e))
   \<and> (\<exists>f e. FileFromPath sample_hash ex_fs ''gone'' 4 = Inr (f, Some e))
   \<and> \<not> (\<exists>f e. FileFromPath sample_hash ex_fs ''one'' 4 = Inr (f, Some e))
   \<and> (\<exists>f. FileFromPath sample_hash ex_fs ''one'' 4 = Inr (f, None))"
proof -
  have k: "size_known ex_fs ''dir''" "size_known ex_fs ''one''" "size_known ex_fs ''gone''"
    by (simp_all add: size_known_def ex_fs_def regular_def)
  have n: "(0::int) \<le> 4" by simp
  have d: "\<exists>f e. FileFromPath sample_hash ex_fs ''dir'' 4 = Inr (f, Some e)"
    using FileFromPath_error_iff [OF n k(1), of sample_hash] by (simp add: ex_fs_def)
  have g: "\<exists>f e. FileFromPath sample_hash ex_fs ''gone'' 4 = Inr (f, Some e)"
    using FileFromPath_error_iff [OF n k(3), of sample_hash] by (simp add: ex_fs_def)
  have o: "\<not> (\<exists>f e. FileFromPath sample_hash ex_fs ''one'' 4 = Inr (f, Some e))"
    using FileFromPath_error_iff [OF n k(2), of sample_hash] by (simp add: ex_fs_def regular_def)
  have s: "\<exists>f. FileFromPath sample_hash ex_fs ''one'' 4 = Inr (f, None)"
    using FileFromPath_error_iff [OF n k(2), of sample_hash] by (simp add: ex_fs_def regular_def)
  show ?thesis using k d g o s by blast
qed

text \<open>
  C6 as stated fails: \<open>dir\<close> opens and its size is known, and extraction fails all the
  same, with the error of the read.
\<close>

theorem FileFromPath_error_counterexample:
  "snd (os_Open ex_fs ''dir'') = None
   \<and> File_Stat (fst (os_Open ex_fs ''dir'')) = Some 0
   \<and> FileFromPath sample_hash ex_fs ''dir'' 4 = Inr (File_zero, Some (PathError ''read'' ''dir''))"
  by (simp add: FileFromPath_cases os_Open_def File_Stat_def ex_fs_def)

subsection \<open>AddFile and NewPathStore\<close>

text \<open>
  C1 fails on the code: \<open>AddFile\<close> never writes to \<open>pathsAdded\<close>, so \<open>PathAdded\<close> stays false.
  Adding the path \<open>ab\<close> a second time returns no error and files a second record.
\<close>

theorem AddFile_same_path_twice:
  "AddFile sample_hash ex_fs ''ab'' (empty_store 2) =
     Inr (\<lparr>paths = [(25285, [ex_file ''ab'' 2 25285])], bytesPerFile = 2, pathsAdded = []\<rparr>, None)
   \<and> AddFile sample_hash ex_fs ''ab''
       \<lparr>paths = [(25285, [ex_file ''ab'' 2 25285])], bytesPerFile = 2, pathsAdded = []\<rparr> =
     Inr (\<lparr>paths = [(25285, [ex_file ''ab'' 2 25285, ex_file ''ab'' 2 25285])],
           bytesPerFile = 2, pathsAdded = []\<rparr>, None)"
  by (simp add: AddFile_def PathAdded_def FileFromPath_cases ex_fs_def regular_def
        padded_prefix_def ex_file_def sample_hash_def empty_store_def lookup_def)

text \<open>\<open>AddFile\<close> writes neither \<open>pathsAdded\<close> nor \<open>bytesPerFile\<close>.\<close>

lemma AddFile_pathsAdded:
  "AddFile H fs s p = Inr (p', e) \<Longrightarrow> pathsAdded p' = pathsAdded p \<and> bytesPerFile p' = bytesPerFile p"
  by (auto simp: AddFile_def split: if_splits sum.splits prod.splits option.splits)

text \<open>A store whose \<open>pathsAdded\<close> is empty rejects no path as already present.\<close>

lemma AddFile_never_rejects:
  "pathsAdded p = [] \<Longrightarrow> AddFile H fs s p \<noteq> Inr (p', Some PathAlreadyPresent)"
  by (auto simp: AddFile_def PathAdded_def FileFromPath_cases
        split: if_splits sum.splits prod.splits option.splits)

lemma lookup_update:
  "lookup (AList.update k v al) k' = (if k' = k then v else lookup al k')"
  by (simp add: lookup_def update_conv')

lemma AddFile_ok:
  assumes "AddFile H fs q p = Inr (p', None)"
  shows "fs q \<noteq> None \<and>
         p' = p\<lparr>paths := AList.update (bytesHash (record_of H fs (nat (bytesPerFile p)) q))
                  (lookup (paths p) (bytesHash (record_of H fs (nat (bytesPerFile p)) q))
                     @ [record_of H fs (nat (bytesPerFile p)) q]) (paths p)\<rparr>"
proof -
  from assms obtain f where f: "FileFromPath H fs q (bytesPerFile p) = Inr (f, None)"
    and p': "p' = p\<lparr>paths := AList.update (bytesHash f) (lookup (paths p) (bytesHash f) @ [f]) (paths p)\<rparr>"
    by (auto simp: AddFile_def split: if_splits sum.splits prod.splits option.splits)
  from FileFromPath_ok[OF f] p' show ?thesis by simp
qed

lemma AddFiles_step:
  assumes "AddFiles H fs (q # ps) st0 = Inr (st, None)"
  obtains st1 where "AddFile H fs q st0 = Inr (st1, None)" and "AddFiles H fs ps st1 = Inr (st, None)"
  using assms by (auto split: sum.splits prod.splits option.splits)

lemma AddFiles_lookup:
  "AddFiles H fs ps st0 = Inr (st, None) \<Longrightarrow>
   lookup (paths st) k =
     lookup (paths st0) k
       @ map (record_of H fs (nat (bytesPerFile st0)))
           (filter (\<lambda>q. H (padded_prefix fs (nat (bytesPerFile st0)) q) 0 = k) ps)
   \<and> (\<forall>q\<in>set ps. fs q \<noteq> None)"
proof (induction ps arbitrary: st0)
  case Nil
  then show ?case by simp
next
  case (Cons q ps)
  from Cons.prems obtain st1 where
    a: "AddFile H fs q st0 = Inr (st1, None)" and r: "AddFiles H fs ps st1 = Inr (st, None)"
    by (rule AddFiles_step)
  note ok = AddFile_ok[OF a]
  from ok have b: "bytesPerFile st1 = bytesPerFile st0" by simp
  from ok have q: "fs q \<noteq> None" by simp
  let ?n = "nat (bytesPerFile st0)"
  have key: "bytesHash (record_of H fs ?n q) = H (padded_prefix fs ?n q) 0"
    using q by (simp add: record_of_fields)
  have l1: "lookup (paths st1) k =
      (if k = H (padded_prefix fs ?n q) 0 then lookup (paths st0) k @ [record_of H fs ?n q]
       else lookup (paths st0) k)"
  proof -
    from ok have p1: "paths st1 =
        AList.update (bytesHash (record_of H fs ?n q))
          (lookup (paths st0) (bytesHash (record_of H fs ?n q)) @ [record_of H fs ?n q]) (paths st0)"
      by simp
    show ?thesis by (simp add: p1 lookup_update key)
  qed
  from Cons.IH[OF r] b l1 q show ?case by auto
qed

lemma store_ok_AddFile:
  "store_ok p \<Longrightarrow> AddFile H fs q p = Inr (p', e) \<Longrightarrow> store_ok p'"
  by (auto simp: AddFile_def store_ok_def distinct_update
        split: if_splits sum.splits prod.splits option.splits)

lemma store_ok_AddFiles:
  "store_ok st0 \<Longrightarrow> AddFiles H fs ps st0 = Inr (st, e) \<Longrightarrow> store_ok st"
proof (induction ps arbitrary: st0)
  case Nil
  then show ?case by simp
next
  case (Cons q ps)
  then show ?case
    by (auto split: sum.splits prod.splits option.splits dest: store_ok_AddFile)
qed

lemma group_lookup:
  "store_ok st \<Longrightarrow> (k, v) \<in> set (paths st) \<Longrightarrow> lookup (paths st) k = v"
  by (simp add: store_ok_def lookup_def)

lemma filter_eq_single: "distinct ps \<Longrightarrow> p \<in> set ps \<Longrightarrow> filter (\<lambda>q. q = p) ps = [p]"
  by (induction ps) (auto simp: filter_empty_conv)

text \<open>
  C3, as amended. Let \<open>NewPathStore\<close> accept every one of the paths \<open>ps\<close>, no path being
  listed twice, and let the hash tell the buffers of these files apart. A file whose
  buffer (its first \<open>N\<close> bytes, filled up with zero bytes) is the buffer of no other file
  of \<open>ps\<close> is in no group of the pruned store. The size of the file plays no part.
\<close>

theorem unique_padded_prefix_not_in_pruned:
  assumes built: "NewPathStore H fs ps N = Inr (st, None)"
    and dist: "distinct ps"
    and mem: "p \<in> set ps"
    and nocoll: "inj_on (\<lambda>b. H b 0) (padded_prefix fs (nat N) ` set ps)"
    and uniq: "\<forall>q\<in>set ps. q \<noteq> p \<longrightarrow> padded_prefix fs (nat N) q \<noteq> padded_prefix fs (nat N) p"
  shows "p \<notin> path ` set (AllPaths (snd (Prune st)))"
proof
  assume "p \<in> path ` set (AllPaths (snd (Prune st)))"
  then obtain k v f where kv: "(k, v) \<in> set (paths (snd (Prune st)))"
    and f: "f \<in> set v" and pf: "path f = p"
    by (auto simp: AllPaths_def)
  from built have b: "AddFiles H fs ps (empty_store N) = Inr (st, None)"
    by (simp add: NewPathStore_def)
  have ok0: "store_ok (empty_store N)" by (simp add: store_ok_def empty_store_def)
  have ok: "store_ok st" by (rule store_ok_AddFiles[OF ok0 b])
  from kv have in_st: "(k, v) \<in> set (paths st)" and len: "1 < length v"
    by (auto simp: Prune_paths[OF ok])
  let ?key = "\<lambda>q. H (padded_prefix fs (nat N) q) 0"
  from AddFiles_lookup[OF b, of k] group_lookup[OF ok in_st]
  have v: "v = map (record_of H fs (nat N)) (filter (\<lambda>q. ?key q = k) ps)"
    and ex: "\<forall>q\<in>set ps. fs q \<noteq> None"
    by (simp_all add: empty_store_def lookup_def)
  from f v obtain q where q: "q \<in> set ps" "?key q = k" "f = record_of H fs (nat N) q"
    by auto
  from q(1) ex have "path (record_of H fs (nat N) q) = q" by (simp add: record_of_fields)
  with q(3) pf have "q = p" by simp
  with q(2) have kp: "k = ?key p" by simp
  have same: "(?key q' = k) = (q' = p)" if "q' \<in> set ps" for q'
  proof
    assume "?key q' = k"
    with kp have "?key q' = ?key p" by simp
    with nocoll that mem have "padded_prefix fs (nat N) q' = padded_prefix fs (nat N) p"
      by (auto dest: inj_onD)
    with uniq that show "q' = p" by auto
  next
    assume "q' = p"
    with kp show "?key q' = k" by simp
  qed
  then have "filter (\<lambda>q. ?key q = k) ps = filter (\<lambda>q. q = p) ps"
    by (auto intro: filter_cong)
  with filter_eq_single[OF dist mem] v have "length v = 1" by simp
  with len show False by simp
qed

lemma ex_NewPathStore:
  "NewPathStore sample_hash ex_fs [''ab'', ''abc'', ''xy''] 2 = Inr (ex_prefix_store, None)"
  by (simp add: NewPathStore_def AddFile_def PathAdded_def FileFromPath_cases ex_fs_def
        regular_def padded_prefix_def ex_file_def sample_hash_def empty_store_def lookup_def
        ex_prefix_store_def)

lemma ex_padded:
  "padded_prefix ex_fs 2 ''ab'' = [97, 98]"
  "padded_prefix ex_fs 2 ''abc'' = [97, 98]"
  "padded_prefix ex_fs 2 ''xy'' = [120, 121]"
  by (simp_all add: padded_prefix_def ex_fs_def regular_def)

theorem unique_padded_prefix_not_in_pruned_witness:
  "NewPathStore sample_hash ex_fs [''ab'', ''abc'', ''xy''] 2 = Inr (ex_prefix_store, None)
   \<and> distinct [''ab'', ''abc'', ''xy'']
   \<and> inj_on (\<lambda>b. sample_hash b 0) (padded_prefix ex_fs 2 ` set [''ab'', ''abc'', ''xy''])
   \<and> padded_prefix ex_fs 2 ''ab'' \<noteq> padded_prefix ex_fs 2 ''xy''
   \<and> padded_prefix ex_fs 2 ''abc'' \<noteq> padded_prefix ex_fs 2 ''xy''
   \<and> ''xy'' \<notin> path ` set (AllPaths (snd (Prune ex_prefix_store)))"
proof -
  have d: "distinct [''ab'', ''abc'', ''xy'']" by simp
  have m: "''xy'' \<in> set [''ab'', ''abc'', ''xy'']" by simp
  have i: "inj_on (\<lambda>b. sample_hash b 0) (padded_prefix ex_fs (nat 2) ` set [''ab'', ''abc'', ''xy''])"
    by (simp add: ex_padded sample_hash_def)
  have u: "\<forall>q\<in>set [''ab'', ''abc'', ''xy'']. q \<noteq> ''xy'' \<longrightarrow>
             padded_prefix ex_fs (nat 2) q \<noteq> padded_prefix ex_fs (nat 2) ''xy''"
    by (simp add: ex_padded)
  have c: "''xy'' \<notin> path ` set (AllPaths (snd (Prune ex_prefix_store)))"
    by (rule unique_padded_prefix_not_in_pruned [OF ex_NewPathStore d m i u])
  from i have i': "inj_on (\<lambda>b. sample_hash b 0) (padded_prefix ex_fs 2 ` set [''ab'', ''abc'', ''xy''])"
    by simp
  show ?thesis using ex_NewPathStore d i' c by (simp add: ex_padded)
qed

text \<open>
  C3 as stated fails: \<open>ab\<close> and \<open>abc\<close> have the same first two bytes and different sizes,
  so each pair of size and prefix is the pair of one file only; the two files are filed
  under one digest and both are in the pruned store.
\<close>

theorem unique_size_prefix_pair_counterexample:
  "NewPathStore sample_hash ex_fs [''ab'', ''abc'', ''xy''] 2 = Inr (ex_prefix_store, None)
   \<and> size_prefix_pair ex_fs 2 ''ab'' = (2, [97, 98])
   \<and> size_prefix_pair ex_fs 2 ''abc'' = (3, [97, 98])
   \<and> size_prefix_pair ex_fs 2 ''xy'' = (2, [120, 121])
   \<and> sample_hash [97, 98] 0 = 25285 \<and> sample_hash [120, 121] 0 = 31219
   \<and> paths (snd (Prune ex_prefix_store)) =
        [(25285, [ex_file ''ab'' 2 25285, ex_file ''abc'' 3 25285])]
   \<and> ''abc'' \<in> path ` set (AllPaths (snd (Prune ex_prefix_store)))"
proof -
  have s: "size_prefix_pair ex_fs 2 ''ab'' = (2, [97, 98])"
    "size_prefix_pair ex_fs 2 ''abc'' = (3, [97, 98])"
    "size_prefix_pair ex_fs 2 ''xy'' = (2, [120, 121])"
    by (simp_all add: size_prefix_pair_def ex_fs_def regular_def)
  have h: "sample_hash [97, 98] 0 = 25285" "sample_hash [120, 121] 0 = 31219"
    by (simp_all add: sample_hash_def)
  have p: "paths (snd (Prune ex_prefix_store)) =
        [(25285, [ex_file ''ab'' 2 25285, ex_file ''abc'' 3 25285])]"
    by (simp add: Prune_def ex_prefix_store_def empty_store_def)
  have m: "''abc'' \<in> path ` set (AllPaths (snd (Prune ex_prefix_store)))"
    by (simp add: AllPaths_def p ex_file_def)
  show ?thesis using ex_NewPathStore s h p m by simp
qed

subsection \<open>main\<close>

lemma dec_nat_digits:
  "dec_nat 0 = ''0''" "dec_nat (Suc 0) = ''1''" "dec_nat 2 = ''2''" "dec_nat 3 = ''3''"
  by (simp_all add: dec_nat.simps digit_def)

lemma ex_fromSTDIn:
  "fromSTDIn sample_hash ex_fs [''ab'', ''abc'', ''xy''] =
     Inr \<lparr>paths = [(0, [ex_file ''ab'' 2 0, ex_file ''abc'' 3 0, ex_file ''xy'' 2 0])],
          bytesPerFile = 0, pathsAdded = []\<rparr>"
  by (simp add: fromSTDIn_def AddFile_def PathAdded_def FileFromPath_cases ex_fs_def
        regular_def padded_prefix_def ex_file_def sample_hash_def empty_store_def lookup_def
        Prune_def)

text \<open>
  C2 fails on the code in the mode that reads the paths from the standard input:
  \<open>fromSTDIn\<close> builds its store without a buffer length, so every digest is the hash of
  the empty buffer, whatever \<^verbatim>\<open>-bytes\<close> says. With \<^verbatim>\<open>-bytes 2\<close> the directory walk files \<open>xy\<close>
  apart from \<open>ab\<close> and \<open>abc\<close>; the same three paths read from the standard input end in
  one group.
\<close>

theorem stdin_ignores_bytes_flag:
  "flag_bytes ex_flags = 2
   \<and> NewPathStore sample_hash ex_fs [''ab'', ''abc'', ''xy''] (flag_bytes ex_flags) =
       Inr (ex_prefix_store, None)
   \<and> fst (main_input sample_hash ex_fs [] ex_tree ex_flags) = []
   \<and> snd (main_input sample_hash ex_fs [] ex_tree ex_flags) = Inr ex_prefix_store
   \<and> sample_hash [] 0 = 0
   \<and> snd (main_input sample_hash ex_fs [''ab'', ''abc'', ''xy''] ex_tree
            (ex_flags\<lparr>flag_stdin := True, flag_path := []\<rparr>)) =
       Inr \<lparr>paths = [(0, [ex_file ''ab'' 2 0, ex_file ''abc'' 3 0, ex_file ''xy'' 2 0])],
            bytesPerFile = 0, pathsAdded = []\<rparr>"
proof -
  have b: "flag_bytes ex_flags = 2" by (simp add: ex_flags_def)
  have w: "dirWalk (ex_tree ''.'') = ([''ab'', ''abc'', ''xy''], None)"
    by (simp add: dirWalk_def ex_tree_def fileCheck_def)
  have d: "main_input sample_hash ex_fs [] ex_tree ex_flags = ([], Inr ex_prefix_store)"
    by (simp add: main_input_def ex_flags_def w ex_NewPathStore)
  have h: "sample_hash [] 0 = 0" by (simp add: sample_hash_def)
  have i: "snd (main_input sample_hash ex_fs [''ab'', ''abc'', ''xy''] ex_tree
            (ex_flags\<lparr>flag_stdin := True, flag_path := []\<rparr>)) =
       Inr \<lparr>paths = [(0, [ex_file ''ab'' 2 0, ex_file ''abc'' 3 0, ex_file ''xy'' 2 0])],
            bytesPerFile = 0, pathsAdded = []\<rparr>"
    by (simp add: main_input_def ex_flags_def ex_fromSTDIn)
  show ?thesis using b d h i by (simp add: ex_NewPathStore)
qed

subsection \<open>Stores built from paths\<close>

lemma list_all_update:
  "list_all P al \<Longrightarrow> P (k, v) \<Longrightarrow> list_all P (AList.update k v al)"
  by (induction al) auto

lemma lookup_cases: "lookup al k = [] \<or> (k, lookup al k) \<in> set al"
  by (auto simp: lookup_def split: option.splits dest: map_of_SomeD)

lemma all_records_lookup:
  "all_records Q p \<Longrightarrow> list_all (Q k) (lookup (paths p) k)"
  using lookup_cases[of "paths p" k]
  by (auto simp: all_records_def list_all_iff)

lemma all_records_empty: "all_records Q (empty_store n)"
  by (simp add: all_records_def empty_store_def)

lemma groups_nonempty_empty: "groups_nonempty (empty_store n)"
  by (simp add: groups_nonempty_def empty_store_def)

lemma store_ok_empty: "store_ok (empty_store n)"
  by (simp add: store_ok_def empty_store_def)

lemma AddFile_cases:
  assumes "AddFile H fs q p = Inr (p', e)"
  shows "p' = p \<or> (e = None \<and> AddFile H fs q p = Inr (p', None))"
  using assms by (auto simp: AddFile_def split: if_splits sum.splits prod.splits option.splits)

lemma all_records_AddFile:
  assumes Q: "\<And>n q. fs q \<noteq> None \<Longrightarrow> Q (bytesHash (record_of H fs n q)) (record_of H fs n q)"
    and inv: "all_records Q p" and a: "AddFile H fs q p = Inr (p', e)"
  shows "all_records Q p'"
proof -
  from AddFile_cases[OF a] show ?thesis
  proof
    assume "p' = p" with inv show ?thesis by simp
  next
    assume "e = None \<and> AddFile H fs q p = Inr (p', None)"
    then have ok: "AddFile H fs q p = Inr (p', None)" by simp
    let ?r = "record_of H fs (nat (bytesPerFile p)) q"
    from AddFile_ok[OF ok] have q: "fs q \<noteq> None"
      and p': "paths p' = AList.update (bytesHash ?r) (lookup (paths p) (bytesHash ?r) @ [?r]) (paths p)"
      by simp_all
    have "list_all (Q (bytesHash ?r)) (lookup (paths p) (bytesHash ?r) @ [?r])"
      using all_records_lookup[OF inv, of "bytesHash ?r"] Q[OF q] by simp
    with inv show ?thesis
      unfolding all_records_def p' by (intro list_all_update) simp_all
  qed
qed

lemma groups_nonempty_AddFile:
  assumes inv: "groups_nonempty p" and a: "AddFile H fs q p = Inr (p', e)"
  shows "groups_nonempty p'"
proof -
  from AddFile_cases[OF a] show ?thesis
  proof
    assume "p' = p" with inv show ?thesis by simp
  next
    assume "e = None \<and> AddFile H fs q p = Inr (p', None)"
    then have ok: "AddFile H fs q p = Inr (p', None)" by simp
    let ?r = "record_of H fs (nat (bytesPerFile p)) q"
    from AddFile_ok[OF ok]
    have p': "paths p' = AList.update (bytesHash ?r) (lookup (paths p) (bytesHash ?r) @ [?r]) (paths p)"
      by simp
    from inv show ?thesis
      unfolding groups_nonempty_def p' by (intro list_all_update) simp_all
  qed
qed

lemma AddFiles_invariant:
  assumes step: "\<And>q p p' e. P p \<Longrightarrow> AddFile H fs q p = Inr (p', e) \<Longrightarrow> P p'"
  shows "P st0 \<Longrightarrow> AddFiles H fs ps st0 = Inr (st, e) \<Longrightarrow> P st"
proof (induction ps arbitrary: st0)
  case Nil
  then show ?case by simp
next
  case (Cons q ps)
  then show ?case
    by (auto split: sum.splits prod.splits option.splits dest: step)
qed

lemma fromSTDIn_loop_invariant:
  assumes step: "\<And>q p p' e. P p \<Longrightarrow> AddFile H fs q p = Inr (p', e) \<Longrightarrow> P p'"
  shows "P st0 \<Longrightarrow> fromSTDIn_loop H fs ls st0 = Inr st \<Longrightarrow> P st"
proof (induction ls arbitrary: st0)
  case Nil
  then show ?case by simp
next
  case (Cons q ls)
  then show ?case
    by (auto split: sum.splits prod.splits option.splits dest: step)
qed

lemma store_inv_empty: "store_inv (empty_store n)"
  by (simp add: store_inv_def store_ok_empty groups_nonempty_empty all_records_empty)

lemma store_inv_AddFile:
  assumes "store_inv p" and "AddFile H fs q p = Inr (p', e)"
  shows "store_inv p'"
proof -
  have a: "store_ok p'" using assms by (auto simp: store_inv_def dest: store_ok_AddFile)
  have b: "groups_nonempty p'" using assms by (auto simp: store_inv_def dest: groups_nonempty_AddFile)
  have c: "all_records (\<lambda>k f. bytesHash f = k) p'"
    using assms(1) by (intro all_records_AddFile[OF _ _ assms(2)]) (simp_all add: store_inv_def)
  have d: "all_records (\<lambda>k f. fullHash f = 0) p'"
    using assms(1)
    by (intro all_records_AddFile[OF _ _ assms(2)]) (simp_all add: store_inv_def record_of_fields)
  show ?thesis using a b c d by (simp add: store_inv_def)
qed

lemma store_inv_Prune: "store_inv p \<Longrightarrow> store_inv (snd (Prune p))"
  by (auto simp: store_inv_def Prune_store_ok groups_nonempty_def all_records_def Prune_paths
        list_all_iff)

lemma main_input_inv:
  assumes "main_input H fs inp walk fl = (printed, Inr bytesMatch)"
  shows "store_inv bytesMatch
     \<and> printed = (if flag_stdin fl then [Line ''getting paths from stdin''] else [])"
proof (cases "flag_stdin fl")
  case True
  with assms obtain themap where l: "fromSTDIn_loop H fs inp (empty_store 0) = Inr themap"
    and b: "bytesMatch = snd (Prune themap)" and p: "printed = [Line ''getting paths from stdin'']"
    by (auto simp: main_input_def fromSTDIn_def split: sum.splits)
  have "store_inv themap"
    by (rule fromSTDIn_loop_invariant[where P = store_inv, OF store_inv_AddFile store_inv_empty l])
  with b p True show ?thesis by (simp add: store_inv_Prune)
next
  case False
  with assms obtain found where n: "NewPathStore H fs found (flag_bytes fl) = Inr (bytesMatch, None)"
    and p: "printed = []"
    by (auto simp: main_input_def split: prod.splits option.splits sum.splits)
  from n have a: "AddFiles H fs found (empty_store (flag_bytes fl)) = Inr (bytesMatch, None)"
    by (simp add: NewPathStore_def)
  have "store_inv bytesMatch"
    by (rule AddFiles_invariant[where P = store_inv, OF store_inv_AddFile store_inv_empty a])
  with p False show ?thesis by simp
qed

lemma feed_Prune:
  "store_ok p \<Longrightarrow>
   set (hashq_feed (snd (Prune p))) = {f. \<exists>k v. (k, v) \<in> set (paths p) \<and> 2 \<le> length v \<and> f \<in> set v}"
  by (auto simp: hashq_feed_def Prune_paths) force

subsection \<open>Runs of main under every schedule\<close>

lemma pick_subset: "set (pick idxs xs) \<subseteq> set xs"
  by (auto simp: pick_def)

lemma hashWorker_step_Inr:
  "hashWorker_step H fs f = Inr g \<Longrightarrow> g = f\<lparr>fullHash := H (fst (ReadFile fs (path f))) 0\<rparr>"
  by (cases "ReadFile fs (path f)") (auto simp: hashWorker_step_def split: option.splits)

lemma worker_sends_from_taken:
  "g \<in> set (worker_sends H fs taken) \<Longrightarrow>
   \<exists>f\<in>set taken. g = f\<lparr>fullHash := H (fst (ReadFile fs (path f))) 0\<rparr>"
  by (auto simp: worker_sends_def split: sum.splits dest: hashWorker_step_Inr[OF sym])


lemma collect_inv:
  "store_ok hashed \<Longrightarrow> groups_nonempty hashed \<Longrightarrow>
   store_ok (collect received hashed) \<and> groups_nonempty (collect received hashed)"
proof (induction received arbitrary: hashed)
  case Nil
  then show ?case by simp
next
  case (Cons f received)
  let ?h = "hashed\<lparr>paths := AList.update (fullHash f) (lookup (paths hashed) (fullHash f) @ [f]) (paths hashed)\<rparr>"
  have a: "store_ok ?h" using Cons.prems(1) by (simp add: store_ok_def distinct_update)
  have b: "groups_nonempty ?h"
    using Cons.prems(2) unfolding groups_nonempty_def
    by (simp add: list_all_update)
  from Cons.IH[OF a b] show ?case by simp
qed

lemma groups_nonempty_Prune:
  "store_ok p \<Longrightarrow> groups_nonempty p \<Longrightarrow> groups_nonempty (snd (Prune p))"
  by (auto simp: groups_nonempty_def Prune_paths list_all_iff)

lemma Summarize_ok: "groups_nonempty p \<Longrightarrow> \<exists>s. Summarize p = Inr s"
  by (simp add: Summarize_def TotalSizeDups_def groups_nonempty_def TotalSizeDups_loop_sum)

lemma Summarize_collected: "\<exists>s. Summarize (snd (Prune (collect received (empty_store 0)))) = Inr s"
proof -
  have c: "store_ok (collect received (empty_store 0))"
    "groups_nonempty (collect received (empty_store 0))"
    using collect_inv[OF store_ok_empty groups_nonempty_empty] by simp_all
  from Summarize_ok[OF groups_nonempty_Prune[OF c]] show ?thesis .
qed

text \<open>The run of the pipeline, in one shape for every schedule.\<close>

lemma main_pipeline_shape:
  assumes s1: "Summarize bytesMatch = Inr s1"
    and s2: "Summarize (snd (Prune bytesMatch)) = Inr s2"
    and t: "taken = (if flag_workers fl \<le> 0 then []
              else take (sched_taken sched) (hashq_feed (snd (Prune bytesMatch))))"
    and r: "received = pick (sched_arrivals sched) (worker_sends H fs taken)"
  shows "\<exists>es1 es2 ending s3.
      Summarize (snd (Prune (collect received (empty_store 0)))) = Inr s3
    \<and> main_pipeline H fs fl sched printed bytesMatch =
           \<lparr>run_printed = printed @ [Line s1, Line s2, Line ''got the hashed map'']
                @ map ErrLine es1
                @ (if reaches_summary ending \<and> flag_summarize fl then [Line s3] else [])
                @ map ErrLine es2,
            run_status = status_of ending, run_taken = taken, run_received = received\<rparr>"
proof -
  define errs where "errs = pick (sched_errors sched) (worker_errors H fs taken)"
  define ending where "ending = (if flag_workers fl \<le> 0 then MainReturns else sched_end sched)"
  from Summarize_collected obtain s3 where
    s3: "Summarize (snd (Prune (collect received (empty_store 0)))) = Inr s3" by blast
  have e: "map ErrLine errs =
      map ErrLine (take (sched_errors_before sched) errs) @ map ErrLine (drop (sched_errors_before sched) errs)"
    by (simp flip: map_append)
  have "main_pipeline H fs fl sched printed bytesMatch =
           \<lparr>run_printed = printed @ [Line s1, Line s2, Line ''got the hashed map'']
                @ map ErrLine (take (sched_errors_before sched) errs)
                @ (if reaches_summary ending \<and> flag_summarize fl then [Line s3] else [])
                @ map ErrLine (drop (sched_errors_before sched) errs),
            run_status = status_of ending, run_taken = taken, run_received = received\<rparr>"
    unfolding main_pipeline_def Let_def
    using s1 s2 s3 e
    by (simp flip: t r errs_def ending_def)
  with s3 show ?thesis by (intro exI conjI)
qed

subsection \<open>What reaches the hashing stage\<close>

lemma groups_of_two_exclude_singleton:
  assumes inv: "store_inv p" and s: "(k, [f]) \<in> set (paths p)"
    and kv: "(k', v') \<in> set (paths p)" and len: "2 \<le> length v'" and f: "f \<in> set v'"
  shows False
proof -
  from inv have ok: "store_ok p" and keyed: "all_records (\<lambda>k f. bytesHash f = k) p"
    by (simp_all add: store_inv_def)
  from keyed kv f have "bytesHash f = k'" by (auto simp: all_records_def list_all_iff)
  moreover from keyed s have "bytesHash f = k" by (auto simp: all_records_def list_all_iff)
  ultimately have "k' = k" by simp
  with kv s ok have "v' = [f]" by (auto simp: store_ok_def dest: eq_key_imp_eq_value)
  with len show False by simp
qed

lemma main_taken_received:
  assumes "main_input H fs inp walk fl = (printed, Inr bytesMatch)"
  shows "set (run_taken (main H fs inp walk fl sched)) \<subseteq> set (hashq_feed (snd (Prune bytesMatch)))
     \<and> set (run_received (main H fs inp walk fl sched))
         \<subseteq> set (worker_sends H fs (run_taken (main H fs inp walk fl sched)))"
proof (cases "flag_stdin fl \<and> flag_path fl \<noteq> []")
  case True
  then show ?thesis by (simp add: main_def ended_def)
next
  case False
  with assms have m: "main H fs inp walk fl sched = main_pipeline H fs fl sched printed bytesMatch"
    by (cases "flag_stdin fl") (simp_all add: main_def)
  from main_input_inv[OF assms] have inv: "store_inv bytesMatch" by simp
  then have ok: "store_ok bytesMatch" and ne: "groups_nonempty bytesMatch"
    by (simp_all add: store_inv_def)
  from Summarize_ok[OF ne] obtain s1 where s1: "Summarize bytesMatch = Inr s1" by blast
  from Summarize_ok[OF groups_nonempty_Prune[OF ok ne]]
  obtain s2 where s2: "Summarize (snd (Prune bytesMatch)) = Inr s2" by blast
  define taken where t: "taken = (if flag_workers fl \<le> 0 then []
              else take (sched_taken sched) (hashq_feed (snd (Prune bytesMatch))))"
  define received where r: "received = pick (sched_arrivals sched) (worker_sends H fs taken)"
  from main_pipeline_shape[OF s1 s2 t r, where printed = printed]
  obtain es1 es2 ending s3 where
    p: "main_pipeline H fs fl sched printed bytesMatch =
           \<lparr>run_printed = printed @ [Line s1, Line s2, Line ''got the hashed map'']
                @ map ErrLine es1
                @ (if reaches_summary ending \<and> flag_summarize fl then [Line s3] else [])
                @ map ErrLine es2,
            run_status = status_of ending, run_taken = taken, run_received = received\<rparr>"
    by (elim exE conjE) (rule that)
  have a: "set taken \<subseteq> set (hashq_feed (snd (Prune bytesMatch)))"
    by (auto simp: t dest: in_set_takeD)
  have b: "set received \<subseteq> set (worker_sends H fs taken)"
    unfolding r by (rule pick_subset)
  from a b show ?thesis by (simp add: m p)
qed

text \<open>
  C8. Let the input stage of main yield the store \<open>bytesMatch\<close>. In the run of main under
  any schedule, every record a worker takes from \<^verbatim>\<open>hashq\<close> belongs to a group of
  \<open>bytesMatch\<close> with at least two members, and the record of a group with one member is
  never taken; in the mode that reads the standard input the same holds of the groups
  with one member of the store \<open>fromSTDIn\<close> built before it pruned it. Every record main
  receives with its full hash set comes from a record a worker took, and no record of
  \<open>bytesMatch\<close> itself has a full hash set.
\<close>

theorem only_groups_of_two_are_hashed:
  assumes "main_input H fs inp walk fl = (printed, Inr bytesMatch)"
  shows "(\<forall>f\<in>set (run_taken (main H fs inp walk fl sched)).
            \<exists>k v. (k, v) \<in> set (paths bytesMatch) \<and> 2 \<le> length v \<and> f \<in> set v)
    \<and> (\<forall>k f. (k, [f]) \<in> set (paths bytesMatch) \<longrightarrow>
           f \<notin> set (run_taken (main H fs inp walk fl sched)))
    \<and> (\<forall>themap k f. flag_stdin fl \<and> fromSTDIn_loop H fs inp (empty_store 0) = Inr themap
           \<and> (k, [f]) \<in> set (paths themap) \<longrightarrow>
           f \<notin> set (run_taken (main H fs inp walk fl sched)))
    \<and> (\<forall>g\<in>set (run_received (main H fs inp walk fl sched)).
           \<exists>f\<in>set (run_taken (main H fs inp walk fl sched)).
             g = f\<lparr>fullHash := H (fst (ReadFile fs (path f))) 0\<rparr>)
    \<and> (\<forall>f\<in>set (AllPaths bytesMatch). fullHash f = 0)"
proof -
  let ?r = "main H fs inp walk fl sched"
  from main_input_inv[OF assms] have inv: "store_inv bytesMatch" by simp
  then have ok: "store_ok bytesMatch" by (simp add: store_inv_def)
  note tr = main_taken_received[OF assms, of sched]
  have a: "\<exists>k v. (k, v) \<in> set (paths bytesMatch) \<and> 2 \<le> length v \<and> f \<in> set v"
    if "f \<in> set (run_taken ?r)" for f
    using that tr feed_Prune[OF ok] by auto
  have b: "f \<notin> set (run_taken ?r)" if "(k, [f]) \<in> set (paths bytesMatch)" for k f
    using a groups_of_two_exclude_singleton[OF inv that] by blast
  have c: "f \<notin> set (run_taken ?r)"
    if st: "flag_stdin fl" and l: "fromSTDIn_loop H fs inp (empty_store 0) = Inr themap"
      and s: "(k, [f]) \<in> set (paths themap)" for themap k f
  proof
    assume "f \<in> set (run_taken ?r)"
    from a[OF this] obtain k' v' where kv: "(k', v') \<in> set (paths bytesMatch)"
      and len: "2 \<le> length v'" and f: "f \<in> set v'" by blast
    have ti: "store_inv themap"
      by (rule fromSTDIn_loop_invariant[where P = store_inv, OF store_inv_AddFile store_inv_empty l])
    then have tok: "store_ok themap" by (simp add: store_inv_def)
    from assms st l have "bytesMatch = snd (Prune themap)"
      by (simp add: main_input_def fromSTDIn_def)
    with kv have "(k', v') \<in> set (paths themap)" by (simp add: Prune_paths[OF tok])
    from groups_of_two_exclude_singleton[OF ti s this len f] show False .
  qed
  have d: "\<exists>f\<in>set (run_taken ?r). g = f\<lparr>fullHash := H (fst (ReadFile fs (path f))) 0\<rparr>"
    if "g \<in> set (run_received ?r)" for g
    using that tr by (auto intro: worker_sends_from_taken)
  have e: "\<forall>f\<in>set (AllPaths bytesMatch). fullHash f = 0"
    using inv by (auto simp: store_inv_def all_records_def list_all_iff AllPaths_def)
  show ?thesis using a b c d e by blast
qed

subsection \<open>What main prints\<close>





subsection \<open>One run, evaluated\<close>

lemma ex_dirWalk: "dirWalk (ex_tree ''.'') = ([''ab'', ''abc'', ''xy''], None)"
  by (simp add: dirWalk_def ex_tree_def fileCheck_def)

lemma ex_main_input_dir:
  "main_input sample_hash ex_fs [] ex_tree ex_flags = ([], Inr ex_prefix_store)"
  by (simp add: main_input_def ex_flags_def ex_dirWalk ex_NewPathStore)

lemma ex_Prune_prefix: "snd (Prune ex_prefix_store) = ex_pruned_store"
  by (simp add: Prune_def ex_prefix_store_def ex_pruned_store_def empty_store_def)

lemma ex_Summarize_prefix:
  "Summarize ex_prefix_store = Inr ''3 files (in 2 sets), occupying 0 megabytes''"
  by (simp add: Summarize_def FileCount_def FileSetCount_def TotalSizeDups_def
        ex_prefix_store_def ex_file_def FormatInt_def dec_nat_digits)

lemma ex_Summarize_pruned:
  "Summarize ex_pruned_store = Inr ''2 files (in 1 sets), occupying 0 megabytes''"
  by (simp add: Summarize_def FileCount_def FileSetCount_def TotalSizeDups_def
        ex_pruned_store_def ex_file_def FormatInt_def dec_nat_digits)

lemma ex_taken:
  "take 2 (hashq_feed ex_pruned_store) = [ex_file ''ab'' 2 25285, ex_file ''abc'' 3 25285]"
  "take (Suc 0) (hashq_feed ex_pruned_store) = [ex_file ''ab'' 2 25285]"
  by (simp_all add: hashq_feed_def ex_pruned_store_def)

lemma ex_worker_sends:
  "worker_sends sample_hash ex_fs [ex_file ''ab'' 2 25285, ex_file ''abc'' 3 25285] =
     [(ex_file ''ab'' 2 25285)\<lparr>fullHash := 25285\<rparr>, (ex_file ''abc'' 3 25285)\<lparr>fullHash := 6498345\<rparr>]"
  "worker_sends sample_hash ex_fs [ex_file ''ab'' 2 25285] =
     [(ex_file ''ab'' 2 25285)\<lparr>fullHash := 25285\<rparr>]"
  "worker_errors sample_hash ex_fs [ex_file ''ab'' 2 25285, ex_file ''abc'' 3 25285] = []"
  "worker_errors sample_hash ex_fs [ex_file ''ab'' 2 25285] = []"
  by (simp_all add: worker_sends_def worker_errors_def hashWorker_step_def ReadFile_def
        ex_fs_def regular_def ex_file_def sample_hash_def)

lemma ex_Summarize_final:
  "Summarize (snd (Prune (collect
       [(ex_file ''abc'' 3 25285)\<lparr>fullHash := 6498345\<rparr>,
        (ex_file ''ab'' 2 25285)\<lparr>fullHash := 25285\<rparr>] (empty_store 0)))) =
     Inr ''0 files (in 0 sets), occupying 0 megabytes''"
  by (simp add: Prune_def empty_store_def lookup_def ex_file_def Summarize_def FileCount_def
        FileSetCount_def TotalSizeDups_def FormatInt_def dec_nat_digits)

lemma ex_run:
  "main sample_hash ex_fs [] ex_tree ex_flags ex_sched =
     \<lparr>run_printed =
        [Line ''3 files (in 2 sets), occupying 0 megabytes'',
         Line ''2 files (in 1 sets), occupying 0 megabytes'',
         Line ''got the hashed map'',
         Line ''0 files (in 0 sets), occupying 0 megabytes''],
      run_status = Exit 0,
      run_taken = [ex_file ''ab'' 2 25285, ex_file ''abc'' 3 25285],
      run_received =
        [(ex_file ''abc'' 3 25285)\<lparr>fullHash := 6498345\<rparr>,
         (ex_file ''ab'' 2 25285)\<lparr>fullHash := 25285\<rparr>]\<rparr>"
proof -
  have f: "flag_summarize ex_flags" "\<not> flag_stdin ex_flags" "flag_workers ex_flags = 2"
    by (simp_all add: ex_flags_def)
  have s: "sched_taken ex_sched = 2" "sched_arrivals ex_sched = [1, 0]" "sched_errors ex_sched = []"
    "sched_errors_before ex_sched = 0" "sched_end ex_sched = MainReturns"
    by (simp_all add: ex_sched_def)
  have r: "pick [Suc 0, 0]
       [(ex_file ''ab'' 2 25285)\<lparr>fullHash := 25285\<rparr>, (ex_file ''abc'' 3 25285)\<lparr>fullHash := 6498345\<rparr>] =
     [(ex_file ''abc'' 3 25285)\<lparr>fullHash := 6498345\<rparr>, (ex_file ''ab'' 2 25285)\<lparr>fullHash := 25285\<rparr>]"
    by (simp add: pick_def)
  have e: "pick [] xs = []" for xs :: "'a list" by (simp add: pick_def)
  show ?thesis
    by (simp add: main_def main_pipeline_def f s ex_main_input_dir ex_Summarize_prefix
          ex_Prune_prefix ex_Summarize_pruned ex_taken ex_worker_sends r e ex_Summarize_final
          reaches_summary_def status_of_def Let_def del: collect.simps)
qed

lemma ex_run_closed:
  "main sample_hash ex_fs [] ex_tree ex_flags ex_sched_closed =
     \<lparr>run_printed =
        [Line ''3 files (in 2 sets), occupying 0 megabytes'',
         Line ''2 files (in 1 sets), occupying 0 megabytes'',
         Line ''got the hashed map''],
      run_status = Crashed SendOnClosedChannel,
      run_taken = [ex_file ''ab'' 2 25285],
      run_received = []\<rparr>"
proof -
  have f: "flag_summarize ex_flags" "\<not> flag_stdin ex_flags" "flag_workers ex_flags = 2"
    by (simp_all add: ex_flags_def)
  have s: "sched_taken ex_sched_closed = 1" "sched_arrivals ex_sched_closed = []"
    "sched_errors ex_sched_closed = []" "sched_errors_before ex_sched_closed = 0"
    "sched_end ex_sched_closed = SendPanics False"
    by (simp_all add: ex_sched_closed_def)
  have p: "pick [] xs = []" for xs :: "'a list" by (simp add: pick_def)
  show ?thesis
    by (simp add: main_def main_pipeline_def f s ex_main_input_dir ex_Summarize_prefix
          ex_Prune_prefix ex_Summarize_pruned ex_taken ex_worker_sends p
          reaches_summary_def status_of_def Let_def del: collect.simps)
qed

theorem only_groups_of_two_are_hashed_witness:
  "main_input sample_hash ex_fs [] ex_tree ex_flags = ([], Inr ex_prefix_store)
   \<and> (31219, [ex_file ''xy'' 2 31219]) \<in> set (paths ex_prefix_store)
   \<and> ex_file ''xy'' 2 31219 \<notin> set (run_taken (main sample_hash ex_fs [] ex_tree ex_flags ex_sched))
   \<and> ex_file ''xy'' 2 31219 \<notin> set (run_taken (main sample_hash ex_fs [] ex_tree ex_flags ex_sched_closed))
   \<and> run_taken (main sample_hash ex_fs [] ex_tree ex_flags ex_sched) =
       [ex_file ''ab'' 2 25285, ex_file ''abc'' 3 25285]
   \<and> run_received (main sample_hash ex_fs [] ex_tree ex_flags ex_sched) =
       [(ex_file ''abc'' 3 25285)\<lparr>fullHash := 6498345\<rparr>,
        (ex_file ''ab'' 2 25285)\<lparr>fullHash := 25285\<rparr>]"
proof -
  have m: "(31219, [ex_file ''xy'' 2 31219]) \<in> set (paths ex_prefix_store)"
    by (simp add: ex_prefix_store_def)
  from only_groups_of_two_are_hashed [OF ex_main_input_dir, of ex_sched] m
  have n: "ex_file ''xy'' 2 31219 \<notin> set (run_taken (main sample_hash ex_fs [] ex_tree ex_flags ex_sched))"
    by blast
  from only_groups_of_two_are_hashed [OF ex_main_input_dir, of ex_sched_closed] m
  have c: "ex_file ''xy'' 2 31219 \<notin> set (run_taken (main sample_hash ex_fs [] ex_tree ex_flags ex_sched_closed))"
    by blast
  show ?thesis using ex_main_input_dir m n c by (simp add: ex_run)
qed



end
